theory Spec2Isabelle
  imports
    Main
    "HOL-Library.Char_ord"
    "HOL-Library.List_Lexorder"
    "HOL-Library.Product_Lexorder"
    "HOL-Library.Multiset"
begin

section \<open>lib/vdsm/storage/guarded.py: locks\<close>

text \<open>
  A lock object of a concrete subclass of \<^verbatim>\<open>AbstractLock\<close>. \<open>oid\<close> is the identity of the
  Python object and \<open>cls\<close> stands for \<^verbatim>\<open>type(self)\<close>; \<open>ns\<close>, \<open>name\<close> and \<open>mode\<close> are the three
  properties. Two distinct objects may carry the same four attributes.
\<close>

record lock =
  oid :: nat
  cls :: string
  ns :: string
  name :: string
  mode :: string

text \<open>\<^verbatim>\<open>_key\<close>: \<^verbatim>\<open>return type(self), self.ns, self.name, self.mode\<close>\<close>

definition key :: "lock \<Rightarrow> string \<times> string \<times> string \<times> string" where
  "key l = (cls l, ns l, name l, mode l)"

text \<open>\<^verbatim>\<open>__eq__\<close>: \<^verbatim>\<open>self._key() == other._key()\<close>; \<^verbatim>\<open>__ne__\<close>: \<^verbatim>\<open>not self == other\<close>\<close>

definition lock_eq :: "lock \<Rightarrow> lock \<Rightarrow> bool" where
  "lock_eq x y = (key x = key y)"

definition lock_ne :: "lock \<Rightarrow> lock \<Rightarrow> bool" where
  "lock_ne x y = (\<not> lock_eq x y)"

text \<open>
  Python compares two tuples by looking for the first position where the components differ
  and comparing those components; tuples without such a position are not smaller than each
  other. Strings compare lexicographically by character code, which is the order of
  \<^typ>\<open>string\<close> here.
\<close>

definition tuple_lt :: "string \<times> string \<Rightarrow> string \<times> string \<Rightarrow> bool" where
  "tuple_lt p q =
     (if fst p \<noteq> fst q then fst p < fst q
      else if snd p \<noteq> snd q then snd p < snd q
      else False)"

text \<open>\<^verbatim>\<open>__lt__\<close>: \<^verbatim>\<open>(self.ns, self.name) < (other.ns, other.name)\<close>\<close>

definition lock_lt :: "lock \<Rightarrow> lock \<Rightarrow> bool" where
  "lock_lt x y = tuple_lt (ns x, name x) (ns y, name y)"

text \<open>The pair a lock is ordered by.\<close>

definition nskey :: "lock \<Rightarrow> string \<times> string" where
  "nskey l = (ns l, name l)"

section \<open>Exceptions, lock operations and the environment\<close>

text \<open>
  The exceptions that reach the guard. \<open>Error\<close> is an instance of a subclass of
  \<^verbatim>\<open>Exception\<close> other than \<^verbatim>\<open>ReleaseError\<close>; \<open>NonError\<close> is an instance of
  \<^verbatim>\<open>BaseException\<close> that is not an \<^verbatim>\<open>Exception\<close> (\<^verbatim>\<open>KeyboardInterrupt\<close>, \<^verbatim>\<open>SystemExit\<close>,
  \<^verbatim>\<open>GeneratorExit\<close>); \<open>ReleaseError\<close> is the module's own class, whose argument is the list
  of collected errors.
\<close>

datatype exn =
    Error string
  | NonError string
  | ReleaseError "exn list"

text \<open>What \<^verbatim>\<open>except Exception\<close> catches, and what \<^verbatim>\<open>except ReleaseError\<close> catches.\<close>

fun is_Exception :: "exn \<Rightarrow> bool" where
  "is_Exception (NonError _) = False"
| "is_Exception _ = True"

fun is_ReleaseError :: "exn \<Rightarrow> bool" where
  "is_ReleaseError (ReleaseError _) = True"
| "is_ReleaseError _ = False"

text \<open>
  The methods \<^verbatim>\<open>acquire\<close> and \<^verbatim>\<open>release\<close> are abstract: the concrete locks live outside this
  module. A call runs in a state of the outside world \<open>'w\<close>, returns normally (\<open>None\<close>) or
  raises (\<open>Some\<close>), and leaves a new state of the world.
\<close>

record 'w ops =
  acquire :: "lock \<Rightarrow> 'w \<Rightarrow> exn option \<times> 'w"
  release :: "lock \<Rightarrow> 'w \<Rightarrow> exn option \<times> 'w"

text \<open>The calls made on locks, and the records written to the logger \<^verbatim>\<open>storage.guarded\<close>.\<close>

datatype event = Acquire lock | Release lock

datatype log_record =
    LogError lock
  | LogException exn

record 'w env =
  world :: 'w
  calls :: "event list"
  logged :: "log_record list"

fun acquire_calls :: "event list \<Rightarrow> lock list" where
  "acquire_calls [] = []"
| "acquire_calls (Acquire l # es) = l # acquire_calls es"
| "acquire_calls (Release l # es) = acquire_calls es"

fun release_calls :: "event list \<Rightarrow> lock list" where
  "release_calls [] = []"
| "release_calls (Acquire l # es) = release_calls es"
| "release_calls (Release l # es) = l # release_calls es"

section \<open>lib/vdsm/storage/guarded.py: the context manager\<close>

text \<open>The class \<^verbatim>\<open>context\<close>: \<^verbatim>\<open>self._locks\<close> and \<^verbatim>\<open>self._held_locks\<close>.\<close>

record guarded_context =
  locks :: "lock list"
  held_locks :: "lock list"

text \<open>
  \<^verbatim>\<open>set(locks)\<close>: the elements are added one by one, and an element equal (\<^verbatim>\<open>__eq__\<close>, with
  the matching \<^verbatim>\<open>__hash__\<close> of the same \<^verbatim>\<open>_key\<close>) to one already present is dropped, so the
  first object of every group of equal locks stays. \<open>py_set\<close> lists the members in the order
  of their insertion.
\<close>

definition set_add :: "lock list \<Rightarrow> lock \<Rightarrow> lock list" where
  "set_add s x = (if list_ex (\<lambda>y. lock_eq y x) s then s else s @ [x])"

definition py_set :: "lock list \<Rightarrow> lock list" where
  "py_set L = foldl set_add [] L"

text \<open>
  The order in which a hash set hands out its members depends on the hash values and on the
  layout of the table; the language leaves it open. It is a parameter \<open>iter\<close> of the model,
  which maps the members to the sequence the iteration yields: every member once.
\<close>

definition valid_iter :: "(lock list \<Rightarrow> lock list) \<Rightarrow> bool" where
  "valid_iter iter \<longleftrightarrow> (\<forall>s. mset (iter s) = mset s)"

text \<open>
  \<^verbatim>\<open>sorted\<close> is a stable sort that compares with \<^verbatim>\<open>__lt__\<close> only. The result of a stable sort
  does not depend on the algorithm; here it is insertion from the right, which puts an
  element before the first one that is not smaller than it.
\<close>

fun insort_lt :: "lock \<Rightarrow> lock list \<Rightarrow> lock list" where
  "insort_lt x [] = [x]"
| "insort_lt x (y # ys) = (if lock_lt y x then y # insort_lt x ys else x # y # ys)"

definition py_sorted :: "lock list \<Rightarrow> lock list" where
  "py_sorted xs = foldr insort_lt xs []"

text \<open>\<^verbatim>\<open>__init__\<close>: \<^verbatim>\<open>self._locks = sorted(set(locks)); self._held_locks = []\<close>\<close>

definition ctx_init :: "(lock list \<Rightarrow> lock list) \<Rightarrow> lock list \<Rightarrow> guarded_context" where
  "ctx_init iter L = \<lparr>locks = py_sorted (iter (py_set L)), held_locks = []\<rparr>"

text \<open>
  The loop of \<^verbatim>\<open>_release\<close>: while the list of held locks is not empty, pop its last
  element and call \<^verbatim>\<open>release\<close> on it; \<^verbatim>\<open>except Exception as e\<close> appends the error to
  \<^verbatim>\<open>errors\<close> and the loop goes on. An exception that is not an \<^verbatim>\<open>Exception\<close> is not caught:
  it leaves the loop at once (first component \<open>Some\<close>), the popped lock gone from the list
  and the other ones still in it.
\<close>

function release_loop ::
  "'w ops \<Rightarrow> lock list \<Rightarrow> exn list \<Rightarrow> 'w env \<Rightarrow> exn option \<times> lock list \<times> exn list \<times> 'w env"
where
  "release_loop ops held errors e =
     (if held = [] then (None, held, errors, e)
      else
        let lock = last held;
            held' = butlast held;
            (r, w') = release ops lock (world e);
            e' = e\<lparr>world := w', calls := calls e @ [Release lock]\<rparr>
        in case r of
             None \<Rightarrow> release_loop ops held' errors e'
           | Some x \<Rightarrow>
               if is_Exception x then release_loop ops held' (errors @ [x]) e'
               else (Some x, held', errors, e'))"
  by pat_completeness auto
termination
  by (relation "measure (\<lambda>(ops, held, errors, e). length held)") auto

text \<open>\<^verbatim>\<open>_release\<close>: after the loop, \<^verbatim>\<open>if errors: raise ReleaseError(errors)\<close>.\<close>

definition ctx_release ::
  "'w ops \<Rightarrow> guarded_context \<Rightarrow> 'w env \<Rightarrow> exn option \<times> guarded_context \<times> 'w env"
where
  "ctx_release ops c e =
     (case release_loop ops (held_locks c) [] e of
        (Some x, held', errors, e') \<Rightarrow> (Some x, c\<lparr>held_locks := held'\<rparr>, e')
      | (None, held', errors, e') \<Rightarrow>
          (if errors \<noteq> [] then Some (ReleaseError errors) else None,
           c\<lparr>held_locks := held'\<rparr>, e'))"

text \<open>
  The loop of \<^verbatim>\<open>__enter__\<close> over the locks still to acquire. The bare \<^verbatim>\<open>except:\<close> catches
  whatever \<^verbatim>\<open>acquire\<close> raises, logs it, calls \<^verbatim>\<open>_release\<close>, logs a \<^verbatim>\<open>ReleaseError\<close> of that
  call (\<^verbatim>\<open>except ReleaseError\<close>; any other exception of \<^verbatim>\<open>_release\<close> goes to the caller) and
  raises the caught exception again. After a successful \<^verbatim>\<open>acquire\<close> the lock is appended to
  \<^verbatim>\<open>_held_locks\<close>. The result \<open>None\<close> stands for \<^verbatim>\<open>return self\<close>.
\<close>

fun enter_loop ::
  "'w ops \<Rightarrow> lock list \<Rightarrow> guarded_context \<Rightarrow> 'w env \<Rightarrow> exn option \<times> guarded_context \<times> 'w env"
where
  "enter_loop ops [] c e = (None, c, e)"
| "enter_loop ops (lock # rest) c e =
     (case acquire ops lock (world e) of
        (Some exc, w') \<Rightarrow>
          (case ctx_release ops c
                  (e\<lparr>world := w', calls := calls e @ [Acquire lock],
                     logged := logged e @ [LogError lock]\<rparr>) of
             (None, c', e') \<Rightarrow> (Some exc, c', e')
           | (Some x, c', e') \<Rightarrow>
               if is_ReleaseError x
               then (Some exc, c', e'\<lparr>logged := logged e' @ [LogException x]\<rparr>)
               else (Some x, c', e'))
      | (None, w') \<Rightarrow>
          enter_loop ops rest (c\<lparr>held_locks := held_locks c @ [lock]\<rparr>)
            (e\<lparr>world := w', calls := calls e @ [Acquire lock]\<rparr>))"

definition ctx_enter ::
  "'w ops \<Rightarrow> guarded_context \<Rightarrow> 'w env \<Rightarrow> exn option \<times> guarded_context \<times> 'w env"
where
  "ctx_enter ops c e = enter_loop ops (locks c) c e"

text \<open>
  The outcome of a call that returns a value or raises. \<^verbatim>\<open>__exit__\<close> returns \<^verbatim>\<open>None\<close> (the
  end of the method, \<open>Return None\<close>) or \<^verbatim>\<open>False\<close> (\<open>Return (Some False)\<close>).
\<close>

datatype 'a result = Return 'a | Raise exn

text \<open>
  \<^verbatim>\<open>__exit__\<close>; \<open>exc\<close> is the exception of the protected body (\<^verbatim>\<open>exc_type\<close>, \<^verbatim>\<open>exc_val\<close>),
  \<open>None\<close> when the body ended normally.
\<close>

definition ctx_exit ::
  "'w ops \<Rightarrow> exn option \<Rightarrow> guarded_context \<Rightarrow> 'w env
     \<Rightarrow> bool option result \<times> guarded_context \<times> 'w env"
where
  "ctx_exit ops exc c e =
     (case ctx_release ops c e of
        (None, c', e') \<Rightarrow> (Return None, c', e')
      | (Some x, c', e') \<Rightarrow>
          if is_ReleaseError x then
            (if exc = None then (Raise x, c', e')
             else (Return (Some False), c', e'\<lparr>logged := logged e' @ [LogException x]\<rparr>))
          else (Raise x, c', e'))"

text \<open>
  The \<^verbatim>\<open>with\<close> statement of the language around the guard: an exception of \<^verbatim>\<open>__enter__\<close>
  goes to the caller and neither the body nor \<^verbatim>\<open>__exit__\<close> runs; otherwise the body runs
  (it changes the world and returns or raises; it makes no call on the locks), then
  \<^verbatim>\<open>__exit__\<close>. An exception of \<^verbatim>\<open>__exit__\<close> replaces the one of the body; a true result
  swallows the exception of the body, any other result lets it through.
\<close>

fun truthy :: "bool option \<Rightarrow> bool" where
  "truthy None = False"
| "truthy (Some b) = b"

definition observed :: "exn option \<Rightarrow> bool option result \<Rightarrow> exn option" where
  "observed exc r =
     (case r of
        Raise x \<Rightarrow> Some x
      | Return v \<Rightarrow> (case exc of None \<Rightarrow> None | Some b \<Rightarrow> if truthy v then None else Some b))"

definition with_context ::
  "'w ops \<Rightarrow> (lock list \<Rightarrow> lock list) \<Rightarrow> lock list \<Rightarrow> ('w \<Rightarrow> exn option \<times> 'w) \<Rightarrow> 'w env
     \<Rightarrow> exn option \<times> guarded_context \<times> 'w env"
where
  "with_context ops iter L body e =
     (case ctx_enter ops (ctx_init iter L) e of
        (Some x, c1, e1) \<Rightarrow> (Some x, c1, e1)
      | (None, c1, e1) \<Rightarrow>
          (case body (world e1) of
             (exc, w2) \<Rightarrow>
               (case ctx_exit ops exc c1 (e1\<lparr>world := w2\<rparr>) of
                  (r, c3, e3) \<Rightarrow> (observed exc r, c3, e3))))"

section \<open>Notions used to state the properties\<close>

text \<open>The world after \<^verbatim>\<open>acquire\<close> has succeeded on every lock of a list, in order.\<close>

fun acquire_all :: "'w ops \<Rightarrow> lock list \<Rightarrow> 'w \<Rightarrow> 'w option" where
  "acquire_all ops [] w = Some w"
| "acquire_all ops (l # ls) w =
     (case acquire ops l w of
        (None, w') \<Rightarrow> acquire_all ops ls w'
      | (Some x, w') \<Rightarrow> None)"

text \<open>
  The exceptions raised by \<^verbatim>\<open>release\<close> when it is called on every lock of a list, in order,
  and the world after these calls.
\<close>

fun release_errors :: "'w ops \<Rightarrow> lock list \<Rightarrow> 'w \<Rightarrow> exn list" where
  "release_errors ops [] w = []"
| "release_errors ops (l # ls) w =
     (case release ops l w of
        (None, w') \<Rightarrow> release_errors ops ls w'
      | (Some x, w') \<Rightarrow> x # release_errors ops ls w')"

fun release_world :: "'w ops \<Rightarrow> lock list \<Rightarrow> 'w \<Rightarrow> 'w" where
  "release_world ops [] w = w"
| "release_world ops (l # ls) w = release_world ops ls (snd (release ops l w))"

text \<open>Every exception that \<^verbatim>\<open>release\<close> raises is an instance of \<^verbatim>\<open>Exception\<close>.\<close>

definition release_raises_Exception :: "'w ops \<Rightarrow> bool" where
  "release_raises_Exception ops \<longleftrightarrow>
     (\<forall>l w. case fst (release ops l w) of None \<Rightarrow> True | Some x \<Rightarrow> is_Exception x)"

text \<open>What is logged after a pass of \<^verbatim>\<open>_release\<close> whose \<^verbatim>\<open>ReleaseError\<close> is not raised.\<close>

definition release_log :: "exn list \<Rightarrow> log_record list" where
  "release_log errors = (if errors = [] then [] else [LogException (ReleaseError errors)])"

text \<open>The (namespace, name) pair inside the tuple of \<open>key\<close>.\<close>

definition key_order :: "string \<times> string \<times> string \<times> string \<Rightarrow> string \<times> string" where
  "key_order k = (fst (snd k), fst (snd (snd k)))"

section \<open>Concrete locks and lock behaviours\<close>

text \<open>
  Three volume locks, a second object equal to the first one, and two behaviours over a
  world that counts the calls. With both, \<^verbatim>\<open>acquire\<close> fails on the lock named \<open>c\<close>. With
  \<open>ops_stuck\<close> every \<^verbatim>\<open>release\<close> fails with an error; with \<open>ops_interrupt\<close> the \<^verbatim>\<open>release\<close> of
  the lock named \<open>b\<close> is interrupted by \<^verbatim>\<open>KeyboardInterrupt\<close>.
\<close>

definition lock_a :: lock where
  "lock_a = \<lparr>oid = 1, cls = ''VolumeLock'', ns = ''vol'', name = ''a'', mode = ''excl''\<rparr>"

definition lock_b :: lock where
  "lock_b = \<lparr>oid = 2, cls = ''VolumeLock'', ns = ''vol'', name = ''b'', mode = ''excl''\<rparr>"

definition lock_c :: lock where
  "lock_c = \<lparr>oid = 3, cls = ''VolumeLock'', ns = ''vol'', name = ''c'', mode = ''excl''\<rparr>"

definition lock_a2 :: lock where
  "lock_a2 = \<lparr>oid = 4, cls = ''VolumeLock'', ns = ''vol'', name = ''a'', mode = ''excl''\<rparr>"

definition ops_stuck :: "nat ops" where
  "ops_stuck =
     \<lparr>acquire = (\<lambda>l w. (if name l = ''c'' then Some (Error ''busy'') else None, w + 1)),
      release = (\<lambda>l w. (Some (Error (''stuck '' @ name l)), w + 1))\<rparr>"

definition ops_interrupt :: "nat ops" where
  "ops_interrupt =
     \<lparr>acquire = (\<lambda>l w. (if name l = ''c'' then Some (Error ''busy'') else None, w + 1)),
      release = (\<lambda>l w. (if name l = ''b'' then Some (NonError ''KeyboardInterrupt'') else None, w + 1))\<rparr>"

definition env0 :: "nat env" where
  "env0 = \<lparr>world = 0, calls = [], logged = []\<rparr>"

definition body_ok :: "nat \<Rightarrow> exn option \<times> nat" where
  "body_ok w = (None, w)"

definition body_fails :: "nat \<Rightarrow> exn option \<times> nat" where
  "body_fails w = (Some (Error ''copy failed''), w)"

section \<open>Lock comparison, deduplication and sorting\<close>

lemma tuple_lt_less: "tuple_lt p q \<longleftrightarrow> p < q"
  by (cases p; cases q) (auto simp: tuple_lt_def)

lemma lock_lt_nskey: "lock_lt x y \<longleftrightarrow> nskey x < nskey y"
  by (simp add: lock_lt_def nskey_def tuple_lt_less)

lemma insort_lt_insort_key: "insort_lt x ys = insort_key nskey x ys"
  by (induction ys) (auto simp: lock_lt_nskey)

lemma py_sorted_sort_key: "py_sorted xs = sort_key nskey xs"
  unfolding py_sorted_def sort_key_def
  by (induction xs) (simp_all add: insort_lt_insort_key)

lemma sorted_py_sorted: "sorted (map nskey (py_sorted xs))"
  by (simp add: py_sorted_sort_key)

lemma mset_py_sorted: "mset (py_sorted xs) = mset xs"
  by (simp add: py_sorted_sort_key)

lemma sorted_wrt_lock_lt: "sorted_wrt (\<lambda>x y. \<not> lock_lt y x) xs \<longleftrightarrow> sorted (map nskey xs)"
  by (simp add: sorted_wrt_map lock_lt_nskey not_less)

lemma list_ex_lock_eq: "list_ex (\<lambda>y. lock_eq y x) s \<longleftrightarrow> key x \<in> set (map key s)"
  by (auto simp: list_ex_iff lock_eq_def intro: rev_image_eqI)

lemma foldl_set_add_keys:
  "set (map key (foldl set_add s L)) = set (map key s) \<union> set (map key L)"
  by (induction L arbitrary: s) (auto simp: set_add_def list_ex_lock_eq)

lemma foldl_set_add_distinct:
  "distinct (map key s) \<Longrightarrow> distinct (map key (foldl set_add s L))"
  by (induction L arbitrary: s) (auto simp: set_add_def list_ex_lock_eq)

lemma py_set_keys: "set (map key (py_set L)) = set (map key L)"
  using foldl_set_add_keys [of "[]" L] by (simp add: py_set_def)

lemma py_set_distinct: "distinct (map key (py_set L))"
  using foldl_set_add_distinct [of "[]" L] by (simp add: py_set_def)

lemma py_set_subset: "set (py_set L) \<subseteq> set L"
proof -
  have "set (foldl set_add s L) \<subseteq> set s \<union> set L" for s
    by (induction L arbitrary: s) (fastforce simp: set_add_def split: if_splits)+
  then show ?thesis by (fastforce simp: py_set_def)
qed

lemma init_mset_keys:
  assumes "valid_iter iter"
  shows "mset (map key (locks (ctx_init iter L))) = mset (map key (py_set L))"
proof -
  have "mset (locks (ctx_init iter L)) = mset (py_set L)"
    using assms by (simp add: ctx_init_def mset_py_sorted valid_iter_def)
  then show ?thesis by (metis mset_map)
qed

lemma init_keys_set:
  "valid_iter iter \<Longrightarrow> set (map key (locks (ctx_init iter L))) = set (map key L)"
  using init_mset_keys [of iter L] py_set_keys [of L] by (metis mset_eq_setD)

lemma init_keys_distinct:
  "valid_iter iter \<Longrightarrow> distinct (map key (locks (ctx_init iter L)))"
  using init_mset_keys [of iter L] py_set_distinct [of L] by (metis mset_eq_imp_distinct_iff)

lemma init_sorted: "sorted (map nskey (locks (ctx_init iter L)))"
  by (simp add: ctx_init_def sorted_py_sorted)

lemma key_order_key: "key_order (key l) = nskey l"
  by (simp add: key_order_def key_def nskey_def)

lemma map_key_order: "map key_order (map key W) = map nskey W"
  by (simp add: key_order_key)

lemma sorted_keys_unique:
  assumes inj: "inj_on key_order (set A)"
    and sets: "set B = set A"
    and dA: "distinct A" and dB: "distinct B"
    and sA: "sorted (map key_order A)" and sB: "sorted (map key_order B)"
  shows "A = B"
proof -
  have injB: "inj_on key_order (set B)" using inj sets by simp
  have d1: "distinct (map key_order A)" using dA inj by (simp add: distinct_map)
  have d2: "distinct (map key_order B)" using dB injB by (simp add: distinct_map)
  have st: "set (map key_order A) = set (map key_order B)" using sets by simp
  have eq: "map key_order A = map key_order B"
    by (rule sorted_distinct_set_unique [OF sA d1 sB d2 st])
  have "inj_on key_order (set A \<union> set B)" using inj sets by simp
  from inj_on_map_eq_map [OF this] eq show ?thesis by blast
qed

section \<open>The release pass\<close>

declare release_loop.simps [simp del]

lemma release_loop_Nil: "release_loop ops [] errs e = (None, [], errs, e)"
  by (simp add: release_loop.simps)

lemma release_loop_snoc:
  "release_loop ops (hs @ [l]) errs e =
     (case release ops l (world e) of
        (None, w') \<Rightarrow>
          release_loop ops hs errs (e\<lparr>world := w', calls := calls e @ [Release l]\<rparr>)
      | (Some x, w') \<Rightarrow>
          if is_Exception x
          then release_loop ops hs (errs @ [x]) (e\<lparr>world := w', calls := calls e @ [Release l]\<rparr>)
          else (Some x, hs, errs, e\<lparr>world := w', calls := calls e @ [Release l]\<rparr>))"
  by (subst release_loop.simps) (simp add: Let_def split: prod.splits option.splits)

lemma release_loop_shape:
  "release_loop ops held errs e = (r, held', errs', e') \<Longrightarrow>
   \<exists>n\<le>length held.
     held' = take (length held - n) held
     \<and> calls e' = calls e @ map Release (take n (rev held))
     \<and> logged e' = logged e
     \<and> (r = None \<longrightarrow> n = length held)
     \<and> (\<forall>x. r = Some x \<longrightarrow> \<not> is_Exception x)"
proof (induction held arbitrary: errs e rule: rev_induct)
  case Nil
  then show ?case by (simp add: release_loop_Nil)
next
  case (snoc l hs)
  obtain ro w' where rel: "release ops l (world e) = (ro, w')"
    by (cases "release ops l (world e)")
  let ?e1 = "e\<lparr>world := w', calls := calls e @ [Release l]\<rparr>"
  show ?case
  proof (cases "\<exists>x. ro = Some x \<and> \<not> is_Exception x")
    case True
    then obtain x where x: "ro = Some x" "\<not> is_Exception x" by blast
    with snoc.prems rel have "r = Some x" "held' = hs" "e' = ?e1"
      by (simp_all add: release_loop_snoc)
    then show ?thesis using x by (intro exI [of _ 1]) simp
  next
    case False
    then obtain errs1 where step: "release_loop ops hs errs1 ?e1 = (r, held', errs', e')"
      using snoc.prems rel by (cases ro) (auto simp: release_loop_snoc)
    from snoc.IH [OF step] obtain n where n: "n \<le> length hs"
      "held' = take (length hs - n) hs"
      "calls e' = calls ?e1 @ map Release (take n (rev hs))"
      "logged e' = logged ?e1" "r = None \<longrightarrow> n = length hs"
      "\<forall>x. r = Some x \<longrightarrow> \<not> is_Exception x"
      by blast
    then show ?thesis by (intro exI [of _ "Suc n"]) simp
  qed
qed

lemma ReleaseError_is_Exception: "is_ReleaseError x \<Longrightarrow> is_Exception x"
  by (cases x) simp_all

lemma contract_cases:
  assumes "release_raises_Exception ops" and "release ops l w = (ro, w')"
  shows "ro = None \<or> (\<exists>x. ro = Some x \<and> is_Exception x)"
proof -
  from assms(1) have "case fst (release ops l w) of None \<Rightarrow> True | Some x \<Rightarrow> is_Exception x"
    unfolding release_raises_Exception_def by blast
  with assms(2) show ?thesis by (cases ro) simp_all
qed

lemma release_loop_all:
  "release_raises_Exception ops \<Longrightarrow>
   release_loop ops held errs e =
     (None, [], errs @ release_errors ops (rev held) (world e),
      e\<lparr>world := release_world ops (rev held) (world e),
        calls := calls e @ map Release (rev held)\<rparr>)"
proof (induction held arbitrary: errs e rule: rev_induct)
  case Nil
  then show ?case by (simp add: release_loop_Nil)
next
  case (snoc l hs)
  obtain ro w' where rel: "release ops l (world e) = (ro, w')"
    by (cases "release ops l (world e)")
  from contract_cases [OF snoc.prems rel] show ?case
    by (auto simp: release_loop_snoc rel snoc.IH [OF snoc.prems])
qed

lemma ctx_release_all:
  "release_raises_Exception ops \<Longrightarrow>
   ctx_release ops c e =
     (if release_errors ops (rev (held_locks c)) (world e) = [] then None
      else Some (ReleaseError (release_errors ops (rev (held_locks c)) (world e))),
      c\<lparr>held_locks := []\<rparr>,
      e\<lparr>world := release_world ops (rev (held_locks c)) (world e),
        calls := calls e @ map Release (rev (held_locks c))\<rparr>)"
  by (simp add: ctx_release_def release_loop_all)

lemma ctx_release_shape:
  assumes "ctx_release ops c e = (r, c', e')"
  shows "locks c' = locks c
    \<and> logged e' = logged e
    \<and> (\<forall>x. r = Some x \<longrightarrow> is_ReleaseError x \<or> \<not> is_Exception x)
    \<and> (\<exists>n\<le>length (held_locks c).
         held_locks c' = take (length (held_locks c) - n) (held_locks c)
         \<and> calls e' = calls e @ map Release (take n (rev (held_locks c)))
         \<and> ((r = None \<or> (\<exists>x. r = Some x \<and> is_ReleaseError x)) \<longrightarrow> n = length (held_locks c)))"
proof -
  obtain r0 h0 errs0 e0 where loop: "release_loop ops (held_locks c) [] e = (r0, h0, errs0, e0)"
    by (cases "release_loop ops (held_locks c) [] e")
  from release_loop_shape [OF loop] obtain n where n: "n \<le> length (held_locks c)"
    "h0 = take (length (held_locks c) - n) (held_locks c)"
    "calls e0 = calls e @ map Release (take n (rev (held_locks c)))"
    "logged e0 = logged e" "r0 = None \<longrightarrow> n = length (held_locks c)"
    "\<forall>x. r0 = Some x \<longrightarrow> \<not> is_Exception x"
    by blast
  from assms loop have eq: "c' = c\<lparr>held_locks := h0\<rparr>" "e' = e0"
    "r = (case r0 of Some x \<Rightarrow> Some x | None \<Rightarrow> if errs0 \<noteq> [] then Some (ReleaseError errs0) else None)"
    by (auto simp: ctx_release_def split: option.splits)
  have "r0 = None" if "r = None \<or> (\<exists>x. r = Some x \<and> is_ReleaseError x)"
    using that eq(3) n(6) by (cases r0) (auto split: if_splits dest: ReleaseError_is_Exception)
  moreover have "\<forall>x. r = Some x \<longrightarrow> is_ReleaseError x \<or> \<not> is_Exception x"
    using eq(3) n(6) by (cases r0) (auto split: if_splits)
  ultimately show ?thesis using n eq(1,2) by (intro conjI exI [of _ n]) auto
qed

section \<open>Entry, exit and the whole statement\<close>

lemma acquire_calls_append: "acquire_calls (xs @ ys) = acquire_calls xs @ acquire_calls ys"
  by (induction xs rule: acquire_calls.induct) simp_all

lemma release_calls_append: "release_calls (xs @ ys) = release_calls xs @ release_calls ys"
  by (induction xs rule: release_calls.induct) simp_all

lemma calls_of_map:
  "acquire_calls (map Acquire ls) = ls" "acquire_calls (map Release ls) = []"
  "release_calls (map Release ls) = ls" "release_calls (map Acquire ls) = []"
  by (induction ls) simp_all

lemma enter_loop_ok:
  "acquire_all ops W (world e) = Some w1 \<Longrightarrow>
   enter_loop ops W c e =
     (None, c\<lparr>held_locks := held_locks c @ W\<rparr>,
      e\<lparr>world := w1, calls := calls e @ map Acquire W\<rparr>)"
  by (induction W arbitrary: c e) (auto split: prod.splits option.splits)

lemma enter_loop_fail:
  assumes "release_raises_Exception ops"
  shows "acquire_all ops pre (world e) = Some wk \<Longrightarrow> acquire ops l wk = (Some exc, wk') \<Longrightarrow>
   enter_loop ops (pre @ l # post) c e =
     (Some exc, c\<lparr>held_locks := []\<rparr>,
      e\<lparr>world := release_world ops (rev (held_locks c @ pre)) wk',
        calls := calls e @ map Acquire (pre @ [l]) @ map Release (rev (held_locks c @ pre)),
        logged := logged e @ LogError l #
                  release_log (release_errors ops (rev (held_locks c @ pre)) wk')\<rparr>)"
proof (induction pre arbitrary: c e)
  case Nil
  then show ?case
    by (simp add: ctx_release_all [OF assms] release_log_def)
next
  case (Cons p pre)
  from Cons.prems(1) obtain w1 where p: "acquire ops p (world e) = (None, w1)"
    and rest: "acquire_all ops pre w1 = Some wk"
    by (auto split: prod.splits option.splits)
  show ?case
    using Cons.IH [of "e\<lparr>world := w1, calls := calls e @ [Acquire p]\<rparr>"
                      "c\<lparr>held_locks := held_locks c @ [p]\<rparr>"] rest Cons.prems(2) p
    by simp
qed

lemma enter_loop_shape:
  "enter_loop ops W c e = (r, c', e') \<Longrightarrow>
   locks c' = locks c
   \<and> (\<exists>n tr. n \<le> length W \<and> calls e' = calls e @ tr \<and> acquire_calls tr = take n W)"
proof (induction W arbitrary: c e)
  case Nil
  then show ?case by auto
next
  case (Cons l rest)
  obtain ro w' where acq: "acquire ops l (world e) = (ro, w')"
    by (cases "acquire ops l (world e)")
  show ?case
  proof (cases ro)
    case None
    let ?c2 = "c\<lparr>held_locks := held_locks c @ [l]\<rparr>"
    let ?e2 = "e\<lparr>world := w', calls := calls e @ [Acquire l]\<rparr>"
    from Cons.prems acq None have "enter_loop ops rest ?c2 ?e2 = (r, c', e')" by simp
    from Cons.IH [OF this] obtain n tr where "locks c' = locks c" "n \<le> length rest"
      "calls e' = calls e @ Acquire l # tr" "acquire_calls tr = take n rest"
      by auto
    then show ?thesis
      by (intro conjI exI [of _ "Suc n"] exI [of _ "Acquire l # tr"]) simp_all
  next
    case (Some exc)
    let ?e1 = "e\<lparr>world := w', calls := calls e @ [Acquire l], logged := logged e @ [LogError l]\<rparr>"
    obtain r1 c1 e1 where rel: "ctx_release ops c ?e1 = (r1, c1, e1)"
      by (cases "ctx_release ops c ?e1")
    from ctx_release_shape [OF rel] obtain n where n: "locks c1 = locks c"
      "calls e1 = calls ?e1 @ map Release (take n (rev (held_locks c)))"
      by blast
    from Cons.prems acq Some rel have "c' = c1" "calls e' = calls e1"
      by (auto split: option.splits if_splits)
    with n show ?thesis
      by (intro conjI exI [of _ "Suc 0"]
            exI [of _ "Acquire l # map Release (take n (rev (held_locks c)))"])
         (simp_all add: calls_of_map)
  qed
qed

lemma enter_loop_attempts:
  "enter_loop ops W c e = (r, c', e') \<Longrightarrow>
   \<exists>n tr. n \<le> length W \<and> calls e' = calls e @ tr \<and> acquire_calls tr = take n W
     \<and> (r = None \<longrightarrow> n = length W \<and> tr = map Acquire W)
     \<and> (r \<noteq> None \<longrightarrow> 0 < n
          \<and> (\<exists>wk. acquire_all ops (take (n - 1) W) (world e) = Some wk
                \<and> fst (acquire ops (W ! (n - 1)) wk) \<noteq> None))
     \<and> (r = None \<longleftrightarrow> acquire_all ops W (world e) \<noteq> None)"
proof (induction W arbitrary: c e)
  case Nil
  then show ?case by auto
next
  case (Cons l rest)
  obtain ro w' where acq: "acquire ops l (world e) = (ro, w')"
    by (cases "acquire ops l (world e)")
  show ?case
  proof (cases ro)
    case None
    let ?c2 = "c\<lparr>held_locks := held_locks c @ [l]\<rparr>"
    let ?e2 = "e\<lparr>world := w', calls := calls e @ [Acquire l]\<rparr>"
    from Cons.prems acq None have "enter_loop ops rest ?c2 ?e2 = (r, c', e')" by simp
    from Cons.IH [OF this] obtain n tr where raw: "n \<le> length rest"
      "calls e' = calls ?e2 @ tr" "acquire_calls tr = take n rest"
      "r = None \<longrightarrow> n = length rest \<and> tr = map Acquire rest"
      "r \<noteq> None \<longrightarrow> 0 < n
          \<and> (\<exists>wk. acquire_all ops (take (n - 1) rest) (world ?e2) = Some wk
                \<and> fst (acquire ops (rest ! (n - 1)) wk) \<noteq> None)"
      "r = None \<longleftrightarrow> acquire_all ops rest (world ?e2) \<noteq> None"
      by (elim exE conjE) (rule that)
    have w2: "world ?e2 = w'" by simp
    note n = raw(1) raw(2) [simplified] raw(3) raw(4) raw(5) [unfolded w2] raw(6) [unfolded w2]
    have fail: "0 < Suc n
          \<and> (\<exists>wk. acquire_all ops (take (Suc n - 1) (l # rest)) (world e) = Some wk
                \<and> fst (acquire ops ((l # rest) ! (Suc n - 1)) wk) \<noteq> None)"
      if "r \<noteq> None"
    proof -
      from n(5) that obtain wk where pos: "0 < n"
        and wk: "acquire_all ops (take (n - 1) rest) w' = Some wk"
        "fst (acquire ops (rest ! (n - 1)) wk) \<noteq> None"
        by blast
      from pos obtain m where m: "n = Suc m" by (cases n) auto
      with wk acq None show ?thesis by auto
    qed
    have iff: "r = None \<longleftrightarrow> acquire_all ops (l # rest) (world e) \<noteq> None"
      using n(6) acq None by simp
    have c1: "Suc n \<le> length (l # rest)" using n(1) by simp
    have c3: "acquire_calls (Acquire l # tr) = take (Suc n) (l # rest)" using n(3) by simp
    have c4: "r = None \<longrightarrow>
                Suc n = length (l # rest) \<and> Acquire l # tr = map Acquire (l # rest)"
      using n(4) by simp
    have c5: "r \<noteq> None \<longrightarrow> 0 < Suc n
          \<and> (\<exists>wk. acquire_all ops (take (Suc n - 1) (l # rest)) (world e) = Some wk
                \<and> fst (acquire ops ((l # rest) ! (Suc n - 1)) wk) \<noteq> None)"
      using fail by blast
    show ?thesis
      by (intro exI [of _ "Suc n"] exI [of _ "Acquire l # tr"] conjI) (rule c1 n(2) c3 c4 c5 iff)+
  next
    case (Some exc)
    let ?e1 = "e\<lparr>world := w', calls := calls e @ [Acquire l], logged := logged e @ [LogError l]\<rparr>"
    obtain r1 c1 e1 where rel: "ctx_release ops c ?e1 = (r1, c1, e1)"
      by (cases "ctx_release ops c ?e1")
    from ctx_release_shape [OF rel] obtain n where n:
      "calls e1 = calls ?e1 @ map Release (take n (rev (held_locks c)))"
      by blast
    from Cons.prems acq Some rel obtain x where res: "r = Some x" "calls e' = calls e1"
      by (auto split: option.splits if_splits)
    let ?tr = "Acquire l # map Release (take n (rev (held_locks c)))"
    have d1: "Suc 0 \<le> length (l # rest)" by simp
    have d2: "calls e' = calls e @ ?tr" using n res(2) by simp
    have d3: "acquire_calls ?tr = take (Suc 0) (l # rest)" by (simp add: calls_of_map)
    have d4: "r = None \<longrightarrow> Suc 0 = length (l # rest) \<and> ?tr = map Acquire (l # rest)"
      using res(1) by simp
    have "acquire_all ops (take (Suc 0 - 1) (l # rest)) (world e) = Some (world e)
          \<and> fst (acquire ops ((l # rest) ! (Suc 0 - 1)) (world e)) \<noteq> None"
      using acq Some by simp
    then have d5: "r \<noteq> None \<longrightarrow> 0 < Suc 0
          \<and> (\<exists>wk. acquire_all ops (take (Suc 0 - 1) (l # rest)) (world e) = Some wk
                \<and> fst (acquire ops ((l # rest) ! (Suc 0 - 1)) wk) \<noteq> None)"
      by blast
    have d6: "r = None \<longleftrightarrow> acquire_all ops (l # rest) (world e) \<noteq> None"
      using acq Some res(1) by simp
    show ?thesis
      by (intro exI [of _ "Suc 0"] exI [of _ ?tr] conjI) (rule d1 d2 d3 d4 d5 d6)+
  qed
qed

lemma ctx_exit_all:
  "release_raises_Exception ops \<Longrightarrow>
   ctx_exit ops exc c e =
     (if release_errors ops (rev (held_locks c)) (world e) = [] \<or> exc \<noteq> None
      then Return (if release_errors ops (rev (held_locks c)) (world e) = [] then None else Some False)
      else Raise (ReleaseError (release_errors ops (rev (held_locks c)) (world e))),
      c\<lparr>held_locks := []\<rparr>,
      e\<lparr>world := release_world ops (rev (held_locks c)) (world e),
        calls := calls e @ map Release (rev (held_locks c)),
        logged := logged e @ (if exc = None then []
                    else release_log (release_errors ops (rev (held_locks c)) (world e)))\<rparr>)"
  by (simp add: ctx_exit_def ctx_release_all release_log_def)

lemma ctx_enter_ok:
  "acquire_all ops (locks (ctx_init iter L)) (world e) = Some w1 \<Longrightarrow>
   ctx_enter ops (ctx_init iter L) e =
     (None, (ctx_init iter L)\<lparr>held_locks := locks (ctx_init iter L)\<rparr>,
      e\<lparr>world := w1, calls := calls e @ map Acquire (locks (ctx_init iter L))\<rparr>)"
  by (simp add: ctx_enter_def enter_loop_ok) (simp add: ctx_init_def)

lemma with_context_all:
  assumes "release_raises_Exception ops"
    and "acquire_all ops (locks (ctx_init iter L)) (world e) = Some w1"
    and "body w1 = (exc, w2)"
  shows "with_context ops iter L body e =
     (if exc = None \<and> release_errors ops (rev (locks (ctx_init iter L))) w2 \<noteq> []
      then Some (ReleaseError (release_errors ops (rev (locks (ctx_init iter L))) w2))
      else exc,
      ctx_init iter L,
      e\<lparr>world := release_world ops (rev (locks (ctx_init iter L))) w2,
        calls := calls e @ map Acquire (locks (ctx_init iter L))
                 @ map Release (rev (locks (ctx_init iter L))),
        logged := logged e @ (if exc = None then []
                    else release_log (release_errors ops (rev (locks (ctx_init iter L))) w2))\<rparr>)"
proof -
  have unheld: "(ctx_init iter L)\<lparr>held_locks := []\<rparr> = ctx_init iter L"
    by (simp add: ctx_init_def)
  show ?thesis
    using assms(3)
    by (cases exc)
       (simp_all add: with_context_def ctx_enter_ok [OF assms(2)] ctx_exit_all [OF assms(1)]
          observed_def unheld)
qed

lemma ctx_enter_locks: "locks (fst (snd (ctx_enter ops c e))) = locks c"
proof -
  obtain r c' e' where "enter_loop ops (locks c) c e = (r, c', e')"
    by (cases "enter_loop ops (locks c) c e")
  with enter_loop_shape [OF this] show ?thesis by (simp add: ctx_enter_def)
qed

lemma ctx_release_locks: "locks (fst (snd (ctx_release ops c e))) = locks c"
proof -
  obtain r c' e' where "ctx_release ops c e = (r, c', e')"
    by (cases "ctx_release ops c e")
  with ctx_release_shape [OF this] show ?thesis by simp
qed

lemma ctx_exit_locks: "locks (fst (snd (ctx_exit ops exc c e))) = locks c"
  using ctx_release_locks [of ops c e]
  by (auto simp: ctx_exit_def split: prod.splits option.splits)

lemma with_context_locks:
  "locks (fst (snd (with_context ops iter L body e))) = locks (ctx_init iter L)"
proof -
  obtain r1 c1 e1 where ent: "ctx_enter ops (ctx_init iter L) e = (r1, c1, e1)"
    by (cases "ctx_enter ops (ctx_init iter L) e")
  with ctx_enter_locks [of ops "ctx_init iter L" e] have c1: "locks c1 = locks (ctx_init iter L)"
    by simp
  show ?thesis
  proof (cases r1)
    case (Some x)
    with ent c1 show ?thesis by (simp add: with_context_def)
  next
    case None
    obtain exc w2 where b: "body (world e1) = (exc, w2)" by (cases "body (world e1)")
    from ent None b c1 ctx_exit_locks [of ops exc c1 "e1\<lparr>world := w2\<rparr>"] show ?thesis
      by (auto simp: with_context_def split: prod.splits)
  qed
qed

lemma valid_iter_Nil: "valid_iter iter \<Longrightarrow> iter [] = []"
  using mset_zero_iff by (fastforce simp: valid_iter_def)

lemma ctx_init_Nil: "valid_iter iter \<Longrightarrow> ctx_init iter [] = \<lparr>locks = [], held_locks = []\<rparr>"
  by (simp add: ctx_init_def py_set_def valid_iter_Nil py_sorted_def)

section \<open>Evaluation of the concrete behaviours\<close>

lemmas ex_defs = lock_a_def lock_b_def lock_c_def lock_a2_def ops_stuck_def ops_interrupt_def env0_def
  body_ok_def body_fails_def

lemmas model_defs = ctx_init_def py_set_def set_add_def py_sorted_def lock_eq_def key_def
  lock_lt_def tuple_lt_def ctx_enter_def ctx_release_def release_loop.simps ctx_exit_def
  with_context_def observed_def release_log_def Let_def

lemma stuck_contract: "release_raises_Exception ops_stuck"
  by (simp add: release_raises_Exception_def ops_stuck_def)

lemma valid_iter_rev: "valid_iter rev"
  by (simp add: valid_iter_def)

lemma valid_iter_id: "valid_iter (\<lambda>s. s)"
  by (simp add: valid_iter_def)

lemma init_cbaa:
  "ctx_init rev [lock_c, lock_b, lock_a, lock_a2] =
     \<lparr>locks = [lock_a, lock_b, lock_c], held_locks = []\<rparr>"
  by (simp add: model_defs ex_defs)

lemma init_baa:
  "ctx_init (\<lambda>s. s) [lock_b, lock_a, lock_a2] = \<lparr>locks = [lock_a, lock_b], held_locks = []\<rparr>"
  by (simp add: model_defs ex_defs)

lemma stuck_acquire_ab: "acquire_all ops_stuck [lock_a, lock_b] 0 = Some 2"
  by (simp add: ex_defs)

lemma interrupt_acquire_ab: "acquire_all ops_interrupt [lock_a, lock_b] 0 = Some 2"
  by (simp add: ex_defs)

section \<open>Equality and order of locks\<close>

text \<open>
  C7. Two locks are equal exactly when their concrete type, namespace, name and mode
  agree; a lock orders before another exactly when its (namespace, name) pair is
  lexicographically smaller. The mode, the concrete type and the object identity take no
  part in the ordering, and a different concrete type makes two locks unequal.
\<close>

theorem lock_eq_lt_contract:
  "(lock_eq x y \<longleftrightarrow> cls x = cls y \<and> ns x = ns y \<and> name x = name y \<and> mode x = mode y)
   \<and> (lock_ne x y \<longleftrightarrow> \<not> lock_eq x y)
   \<and> (lock_lt x y \<longleftrightarrow> ns x < ns y \<or> (ns x = ns y \<and> name x < name y))
   \<and> lock_lt (x\<lparr>mode := m, cls := t, oid := i\<rparr>) y = lock_lt x y
   \<and> lock_lt x (y\<lparr>mode := m, cls := t, oid := i\<rparr>) = lock_lt x y
   \<and> (cls x \<noteq> cls y \<longrightarrow> \<not> lock_eq x y)"
  by (auto simp: lock_eq_def lock_ne_def key_def lock_lt_def tuple_lt_def)

text \<open>Two locks that differ in the concrete type only; two locks ordered by their names.\<close>

theorem lock_eq_lt_contract_witness:
  "\<not> lock_eq \<lparr>oid = 1, cls = ''VolumeLock'', ns = ''vol'', name = ''a'', mode = ''excl''\<rparr>
             \<lparr>oid = 2, cls = ''ImageLock'', ns = ''vol'', name = ''a'', mode = ''excl''\<rparr>
   \<and> lock_lt \<lparr>oid = 1, cls = ''VolumeLock'', ns = ''vol'', name = ''a'', mode = ''excl''\<rparr>
             \<lparr>oid = 2, cls = ''ImageLock'', ns = ''vol'', name = ''b'', mode = ''shared''\<rparr>"
  using lock_eq_lt_contract
    [of "\<lparr>oid = 1, cls = ''VolumeLock'', ns = ''vol'', name = ''a'', mode = ''excl''\<rparr>"
        "\<lparr>oid = 2, cls = ''ImageLock'', ns = ''vol'', name = ''a'', mode = ''excl''\<rparr>"]
    lock_eq_lt_contract
    [of "\<lparr>oid = 1, cls = ''VolumeLock'', ns = ''vol'', name = ''a'', mode = ''excl''\<rparr>"
        "\<lparr>oid = 2, cls = ''ImageLock'', ns = ''vol'', name = ''b'', mode = ''shared''\<rparr>"]
  by simp

section \<open>Construction\<close>

text \<open>
  C6. For every input collection, with duplicates or empty, and every iteration order of
  the set, the working list holds exactly the distinct (type, namespace, name, mode)
  identities of the input, each once, and consists of objects of the input; nothing is
  held after construction. Construction is a total function that takes neither lock
  behaviours nor an environment: it makes no call on a lock and has no failure. For the
  empty input the guard is a no-op: entry and exit return without any call on a lock and
  without a log record, and the whole statement yields what the body yields.
\<close>

theorem init_deduplicates:
  assumes "valid_iter iter"
  shows "set (map key (locks (ctx_init iter L))) = set (map key L)
     \<and> distinct (map key (locks (ctx_init iter L)))
     \<and> set (locks (ctx_init iter L)) \<subseteq> set L
     \<and> held_locks (ctx_init iter L) = []
     \<and> ctx_init iter [] = \<lparr>locks = [], held_locks = []\<rparr>
     \<and> ctx_enter ops (ctx_init iter []) e = (None, ctx_init iter [], e)
     \<and> ctx_exit ops exc (ctx_init iter []) e = (Return None, ctx_init iter [], e)
     \<and> with_context ops iter [] body e =
         (fst (body (world e)), ctx_init iter [], e\<lparr>world := snd (body (world e))\<rparr>)"
proof -
  have "mset (locks (ctx_init iter L)) = mset (py_set L)"
    using assms by (simp add: ctx_init_def mset_py_sorted valid_iter_def)
  then have "set (locks (ctx_init iter L)) = set (py_set L)" by (rule mset_eq_setD)
  with py_set_subset [of L] have sub: "set (locks (ctx_init iter L)) \<subseteq> set L" by simp
  have ent: "ctx_enter ops (ctx_init iter []) e = (None, ctx_init iter [], e)" for e :: "'a env"
    by (simp add: ctx_init_Nil [OF assms] ctx_enter_def)
  have ex: "ctx_exit ops exc (ctx_init iter []) e = (Return None, ctx_init iter [], e)"
    for e :: "'a env" and exc
    by (simp add: ctx_init_Nil [OF assms] ctx_exit_def ctx_release_def release_loop_Nil)
  have "with_context ops iter [] body e =
         (fst (body (world e)), ctx_init iter [], e\<lparr>world := snd (body (world e))\<rparr>)"
    by (cases "body (world e)"; cases "fst (body (world e))")
       (simp_all add: with_context_def ent ex observed_def)
  with sub ent ex show ?thesis
    using init_keys_set [OF assms, of L] init_keys_distinct [OF assms, of L]
      ctx_init_Nil [OF assms]
    by (simp add: ctx_init_def)
qed

text \<open>Four lock objects, two of them equal, give three identities; the empty guard.\<close>

theorem init_deduplicates_witness:
  "valid_iter rev
   \<and> map key (locks (ctx_init rev [lock_c, lock_b, lock_a, lock_a2]))
       = [key lock_a, key lock_b, key lock_c]
   \<and> set (map key (locks (ctx_init rev [lock_c, lock_b, lock_a, lock_a2])))
       = set (map key [lock_c, lock_b, lock_a, lock_a2])
   \<and> distinct (map key (locks (ctx_init rev [lock_c, lock_b, lock_a, lock_a2])))
   \<and> with_context ops_stuck rev [] body_ok env0 = (None, \<lparr>locks = [], held_locks = []\<rparr>, env0)"
proof -
  have "with_context ops_stuck rev [] body_ok env0 = (None, ctx_init rev [], env0)"
    using init_deduplicates [OF valid_iter_rev, of "[]" ops_stuck env0 None body_ok]
    by (simp add: body_ok_def env0_def)
  moreover have "ctx_init rev [] = \<lparr>locks = [], held_locks = []\<rparr>"
    using init_deduplicates [OF valid_iter_rev, of "[]" ops_stuck env0 None body_ok] by simp
  ultimately show ?thesis
    using init_deduplicates [OF valid_iter_rev, of "[lock_c, lock_b, lock_a, lock_a2]"
        ops_stuck env0 None body_ok] valid_iter_rev
    by (simp add: init_cbaa)
qed

text \<open>
  C10. Two input collections with the same set of identities give, under any two
  iteration orders of the set, working lists with the same set of identities; when
  distinct identities of the input have distinct (namespace, name) pairs, the two working
  lists carry the same identities in the same sequence.
\<close>

theorem init_order_insensitive:
  assumes "valid_iter iter1" and "valid_iter iter2"
    and "set (map key L1) = set (map key L2)"
  shows "set (map key (locks (ctx_init iter1 L1))) = set (map key (locks (ctx_init iter2 L2)))
    \<and> ((\<forall>x\<in>set L1. \<forall>y\<in>set L1. nskey x = nskey y \<longrightarrow> key x = key y) \<longrightarrow>
         map key (locks (ctx_init iter1 L1)) = map key (locks (ctx_init iter2 L2)))"
proof -
  let ?W1 = "locks (ctx_init iter1 L1)" and ?W2 = "locks (ctx_init iter2 L2)"
  have s1: "set (map key ?W1) = set (map key L1)"
    by (rule init_keys_set [OF assms(1)])
  have s2: "set (map key ?W2) = set (map key L1)"
    using init_keys_set [OF assms(2), of L2] assms(3) by (simp only:)
  have seq: "map key ?W1 = map key ?W2"
    if inj: "\<forall>x\<in>set L1. \<forall>y\<in>set L1. nskey x = nskey y \<longrightarrow> key x = key y"
  proof (rule sorted_keys_unique)
    have "inj_on key_order (set (map key L1))"
      unfolding inj_on_def
    proof (intro ballI impI)
      fix a b assume "a \<in> set (map key L1)" "b \<in> set (map key L1)" "key_order a = key_order b"
      then obtain x y where "x \<in> set L1" "y \<in> set L1" "a = key x" "b = key y"
        "nskey x = nskey y"
        by (auto simp: key_order_key)
      with inj show "a = b" by blast
    qed
    then show "inj_on key_order (set (map key ?W1))" by (simp only: s1)
    show "set (map key ?W2) = set (map key ?W1)" by (simp only: s1 s2)
    show "distinct (map key ?W1)" by (rule init_keys_distinct [OF assms(1)])
    show "distinct (map key ?W2)" by (rule init_keys_distinct [OF assms(2)])
    show "sorted (map key_order (map key ?W1))"
      unfolding map_key_order by (rule init_sorted)
    show "sorted (map key_order (map key ?W2))"
      unfolding map_key_order by (rule init_sorted)
  qed
  from s1 s2 seq show ?thesis by (simp only: simp_thms) blast
qed

text \<open>The same identities in another order, with another object and another iteration.\<close>

theorem init_order_insensitive_witness:
  "valid_iter rev \<and> valid_iter (\<lambda>s. s)
   \<and> set (map key [lock_c, lock_b, lock_a, lock_a2]) = set (map key [lock_a2, lock_c, lock_b])
   \<and> map key (locks (ctx_init rev [lock_c, lock_b, lock_a, lock_a2]))
       = map key (locks (ctx_init (\<lambda>s. s) [lock_a2, lock_c, lock_b]))"
proof -
  have h3: "set (map key [lock_c, lock_b, lock_a, lock_a2]) = set (map key [lock_a2, lock_c, lock_b])"
    by (auto simp: key_def ex_defs)
  have h4: "\<forall>x\<in>set [lock_c, lock_b, lock_a, lock_a2]. \<forall>y\<in>set [lock_c, lock_b, lock_a, lock_a2].
         nskey x = nskey y \<longrightarrow> key x = key y"
    by (simp add: key_def nskey_def ex_defs)
  from init_order_insensitive [OF valid_iter_rev valid_iter_id h3] h4
  have "map key (locks (ctx_init rev [lock_c, lock_b, lock_a, lock_a2]))
       = map key (locks (ctx_init (\<lambda>s. s) [lock_a2, lock_c, lock_b]))"
    by blast
  with valid_iter_rev valid_iter_id h3 show ?thesis by blast
qed

section \<open>Order of the acquisitions and the frame of the working list\<close>

text \<open>
  C4. For every input collection, every iteration order, every behaviour of the locks and
  every environment, the calls of \<^verbatim>\<open>acquire\<close> made by the entry are the first \<open>n\<close> locks
  of the working list, in its order, and no lock in the working list, hence in that
  sequence, is smaller, by \<^verbatim>\<open>__lt__\<close>, than one before it: the sequence is non-decreasing in
  (namespace, name). The number \<open>n\<close> is fixed by the locks: when the entry returns, which
  it does exactly when every \<^verbatim>\<open>acquire\<close> succeeds, the calls are \<^verbatim>\<open>acquire\<close> on the whole
  working list and nothing else; when it raises, \<open>n\<close> is at least one, \<^verbatim>\<open>acquire\<close> succeeded
  on the first \<open>n - 1\<close> locks and raised on the \<open>n\<close>-th.
\<close>

theorem acquire_order_nondecreasing:
  "\<exists>n tr. n \<le> length (locks (ctx_init iter L))
     \<and> calls (snd (snd (ctx_enter ops (ctx_init iter L) e))) = calls e @ tr
     \<and> acquire_calls tr = take n (locks (ctx_init iter L))
     \<and> sorted_wrt (\<lambda>x y. \<not> lock_lt y x) (locks (ctx_init iter L))
     \<and> sorted_wrt (\<lambda>x y. \<not> lock_lt y x) (acquire_calls tr)
     \<and> (fst (ctx_enter ops (ctx_init iter L) e) = None \<longrightarrow>
          n = length (locks (ctx_init iter L)) \<and> tr = map Acquire (locks (ctx_init iter L)))
     \<and> (fst (ctx_enter ops (ctx_init iter L) e) \<noteq> None \<longrightarrow>
          0 < n
          \<and> (\<exists>wk. acquire_all ops (take (n - 1) (locks (ctx_init iter L))) (world e) = Some wk
                \<and> fst (acquire ops (locks (ctx_init iter L) ! (n - 1)) wk) \<noteq> None))
     \<and> (fst (ctx_enter ops (ctx_init iter L) e) = None \<longleftrightarrow>
          acquire_all ops (locks (ctx_init iter L)) (world e) \<noteq> None)"
proof -
  let ?c = "ctx_init iter L"
  obtain r c' e' where ent: "enter_loop ops (locks ?c) ?c e = (r, c', e')"
    by (cases "enter_loop ops (locks ?c) ?c e")
  from enter_loop_attempts [OF ent] obtain n tr where tr: "n \<le> length (locks ?c)"
    "calls e' = calls e @ tr" "acquire_calls tr = take n (locks ?c)"
    "r = None \<longrightarrow> n = length (locks ?c) \<and> tr = map Acquire (locks ?c)"
    "r \<noteq> None \<longrightarrow> 0 < n
          \<and> (\<exists>wk. acquire_all ops (take (n - 1) (locks ?c)) (world e) = Some wk
                \<and> fst (acquire ops (locks ?c ! (n - 1)) wk) \<noteq> None)"
    "r = None \<longleftrightarrow> acquire_all ops (locks ?c) (world e) \<noteq> None"
    by (elim exE conjE) (rule that)
  have res: "fst (ctx_enter ops ?c e) = r" "calls (snd (snd (ctx_enter ops ?c e))) = calls e'"
    using ent by (simp_all add: ctx_enter_def)
  have srt: "sorted_wrt (\<lambda>x y. \<not> lock_lt y x) (locks ?c)"
    unfolding sorted_wrt_lock_lt by (rule init_sorted)
  have st: "sorted_wrt (\<lambda>x y. \<not> lock_lt y x) (acquire_calls tr)"
    unfolding tr(3) using srt by (rule sorted_wrt_take)
  show ?thesis
    unfolding res
    by (intro exI [of _ n] exI [of _ tr] conjI) (rule tr srt st)+
qed

text \<open>
  An entry over two locks that returns after acquiring both, and an entry over three
  locks that raises at the third after calling \<^verbatim>\<open>acquire\<close> on all three.
\<close>

theorem acquire_order_nondecreasing_witness:
  "fst (ctx_enter ops_stuck (ctx_init (\<lambda>s. s) [lock_b, lock_a, lock_a2]) env0) = None
   \<and> calls (snd (snd (ctx_enter ops_stuck (ctx_init (\<lambda>s. s) [lock_b, lock_a, lock_a2]) env0)))
       = [Acquire lock_a, Acquire lock_b]
   \<and> fst (ctx_enter ops_stuck (ctx_init rev [lock_c, lock_b, lock_a, lock_a2]) env0) \<noteq> None
   \<and> acquire_calls
        (calls (snd (snd (ctx_enter ops_stuck (ctx_init rev [lock_c, lock_b, lock_a, lock_a2]) env0))))
       = [lock_a, lock_b, lock_c]
   \<and> sorted_wrt (\<lambda>x y. \<not> lock_lt y x) [lock_a, lock_b, lock_c]"
proof -
  have ret: "fst (ctx_enter ops_stuck (ctx_init (\<lambda>s. s) [lock_b, lock_a, lock_a2]) env0) = None"
    unfolding init_baa by (simp add: ctx_enter_def ex_defs)
  have rai: "fst (ctx_enter ops_stuck (ctx_init rev [lock_c, lock_b, lock_a, lock_a2]) env0) \<noteq> None"
    unfolding init_cbaa
    by (simp add: ctx_enter_def ctx_release_def release_loop.simps Let_def ex_defs)
  let ?D = "ctx_init (\<lambda>s. s) [lock_b, lock_a, lock_a2]"
  from acquire_order_nondecreasing [of "\<lambda>s. s" "[lock_b, lock_a, lock_a2]" ops_stuck env0]
  obtain m tr0 where mt: "calls (snd (snd (ctx_enter ops_stuck ?D env0))) = calls env0 @ tr0"
    "fst (ctx_enter ops_stuck ?D env0) = None \<longrightarrow>
       m = length (locks ?D) \<and> tr0 = map Acquire (locks ?D)"
    by (elim exE conjE) (rule that)
  from mt(2) ret have "tr0 = map Acquire (locks ?D)" by blast
  with mt(1)
  have a: "calls (snd (snd (ctx_enter ops_stuck (ctx_init (\<lambda>s. s) [lock_b, lock_a, lock_a2]) env0)))
       = [Acquire lock_a, Acquire lock_b]"
    by (simp add: init_baa env0_def)
  let ?C = "ctx_init rev [lock_c, lock_b, lock_a, lock_a2]"
  from acquire_order_nondecreasing [of rev "[lock_c, lock_b, lock_a, lock_a2]" ops_stuck env0]
  obtain n tr where nt: "n \<le> length (locks ?C)"
    "calls (snd (snd (ctx_enter ops_stuck ?C env0))) = calls env0 @ tr"
    "acquire_calls tr = take n (locks ?C)"
    "sorted_wrt (\<lambda>x y. \<not> lock_lt y x) (locks ?C)"
    "fst (ctx_enter ops_stuck ?C env0) \<noteq> None \<longrightarrow> 0 < n
       \<and> (\<exists>wk. acquire_all ops_stuck (take (n - 1) (locks ?C)) (world env0) = Some wk
             \<and> fst (acquire ops_stuck (locks ?C ! (n - 1)) wk) \<noteq> None)"
    by (elim exE conjE) (rule that)
  from nt(5) rai obtain wk where pos: "0 < n"
    and pre: "acquire_all ops_stuck (take (n - 1) (locks ?C)) (world env0) = Some wk"
    and bad: "fst (acquire ops_stuck (locks ?C ! (n - 1)) wk) \<noteq> None"
    by blast
  from nt(1) pos have "n = 1 \<or> n = 2 \<or> n = 3" by (auto simp: init_cbaa)
  then have n3: "n = 3"
    using bad [unfolded init_cbaa] by (auto simp: ex_defs)
  have b: "acquire_calls (calls (snd (snd (ctx_enter ops_stuck ?C env0)))) = [lock_a, lock_b, lock_c]"
    using nt(2,3) n3 by (simp add: init_cbaa env0_def)
  have c: "sorted_wrt (\<lambda>x y. \<not> lock_lt y x) [lock_a, lock_b, lock_c]"
    using nt(4) by (simp only: init_cbaa guarded_context.simps)
  from ret a rai b c show ?thesis by (intro conjI)
qed

text \<open>
  C9. The working list built at construction is never changed afterwards: the entry, the
  exit, a release pass and the whole statement leave \<^verbatim>\<open>_locks\<close> as it is, whatever the
  locks do and whether the call returns or raises.
\<close>

theorem locks_never_mutated:
  "locks (ctx_init iter L) = py_sorted (iter (py_set L))
   \<and> locks (fst (snd (ctx_enter ops c e))) = locks c
   \<and> locks (fst (snd (ctx_release ops c e))) = locks c
   \<and> locks (fst (snd (ctx_exit ops exc c e))) = locks c
   \<and> locks (fst (snd (with_context ops iter L body e))) = locks (ctx_init iter L)"
  by (simp add: ctx_enter_locks ctx_release_locks ctx_exit_locks with_context_locks)
     (simp add: ctx_init_def)

section \<open>Release passes\<close>

text \<open>
  C8. In every release pass each lock is popped from the list of held locks
  before its \<^verbatim>\<open>release\<close> is called: the calls of the pass are an initial segment of the
  held locks in reverse, one call per lock at most, and the locks left in the list are
  exactly those not yet tried, so a lock whose \<^verbatim>\<open>release\<close> failed is not tried again. When
  the pass ends by returning or by raising its \<^verbatim>\<open>ReleaseError\<close>, the list is empty and
  every held lock was released once. That is how the pass ends whenever the exceptions of
  \<^verbatim>\<open>release\<close> are instances of \<^verbatim>\<open>Exception\<close>, even when every call fails.
\<close>

theorem release_pass_invariant:
  assumes "ctx_release ops c e = (r, c', e')"
  shows "(\<exists>n\<le>length (held_locks c).
            held_locks c' = take (length (held_locks c) - n) (held_locks c)
            \<and> calls e' = calls e @ map Release (take n (rev (held_locks c))))
     \<and> (r = None \<or> (\<exists>errors. r = Some (ReleaseError errors)) \<longrightarrow>
            held_locks c' = [] \<and> calls e' = calls e @ map Release (rev (held_locks c)))
     \<and> (release_raises_Exception ops \<longrightarrow>
            held_locks c' = [] \<and> calls e' = calls e @ map Release (rev (held_locks c))
            \<and> r = (if release_errors ops (rev (held_locks c)) (world e) = [] then None
                   else Some (ReleaseError (release_errors ops (rev (held_locks c)) (world e)))))"
proof -
  from ctx_release_shape [OF assms] obtain n where n: "n \<le> length (held_locks c)"
    "held_locks c' = take (length (held_locks c) - n) (held_locks c)"
    "calls e' = calls e @ map Release (take n (rev (held_locks c)))"
    "(r = None \<or> (\<exists>x. r = Some x \<and> is_ReleaseError x)) \<longrightarrow> n = length (held_locks c)"
    by blast
  have a: "\<exists>n\<le>length (held_locks c).
            held_locks c' = take (length (held_locks c) - n) (held_locks c)
            \<and> calls e' = calls e @ map Release (take n (rev (held_locks c)))"
    using n(1-3) by blast
  have b: "held_locks c' = [] \<and> calls e' = calls e @ map Release (rev (held_locks c))"
    if "r = None \<or> (\<exists>errors. r = Some (ReleaseError errors))"
  proof -
    from that have "r = None \<or> (\<exists>x. r = Some x \<and> is_ReleaseError x)" by auto
    with n(4) have "n = length (held_locks c)" by blast
    with n(2,3) show ?thesis by simp
  qed
  have c: "held_locks c' = [] \<and> calls e' = calls e @ map Release (rev (held_locks c))
            \<and> r = (if release_errors ops (rev (held_locks c)) (world e) = [] then None
                   else Some (ReleaseError (release_errors ops (rev (held_locks c)) (world e))))"
    if "release_raises_Exception ops"
    using assms ctx_release_all [OF that, of c e] by auto
  from a b c show ?thesis by blast
qed

text \<open>A pass in which both calls of \<^verbatim>\<open>release\<close> fail with an error.\<close>

theorem release_pass_invariant_witness:
  "release_raises_Exception ops_stuck
   \<and> ctx_release ops_stuck \<lparr>locks = [lock_a, lock_b], held_locks = [lock_a, lock_b]\<rparr> env0 =
       (Some (ReleaseError [Error ''stuck b'', Error ''stuck a'']),
        \<lparr>locks = [lock_a, lock_b], held_locks = []\<rparr>,
        \<lparr>world = 2, calls = [Release lock_b, Release lock_a], logged = []\<rparr>)"
proof -
  let ?c = "\<lparr>locks = [lock_a, lock_b], held_locks = [lock_a, lock_b]\<rparr>"
  have run: "ctx_release ops_stuck ?c env0 =
       (Some (ReleaseError [Error ''stuck b'', Error ''stuck a'']),
        \<lparr>locks = [lock_a, lock_b], held_locks = []\<rparr>,
        \<lparr>world = 2, calls = [Release lock_b, Release lock_a], logged = []\<rparr>)"
    by (simp add: ctx_release_def release_loop.simps Let_def ex_defs)
  from release_pass_invariant [OF run] stuck_contract run show ?thesis
    by (simp only: simp_thms)
qed

text \<open>
  Without the restriction the list is not always empty after the pass: a \<^verbatim>\<open>release\<close> that
  raises \<^verbatim>\<open>KeyboardInterrupt\<close> is not caught by \<^verbatim>\<open>except Exception\<close>, the pass ends there,
  and the locks not yet tried stay in the list.
\<close>

theorem release_pass_interrupted:
  "ctx_release ops_interrupt \<lparr>locks = [lock_a, lock_b], held_locks = [lock_a, lock_b]\<rparr> env0 =
     (Some (NonError ''KeyboardInterrupt''),
      \<lparr>locks = [lock_a, lock_b], held_locks = [lock_a]\<rparr>,
      \<lparr>world = 1, calls = [Release lock_b], logged = []\<rparr>)"
  by (simp add: ctx_release_def release_loop.simps Let_def ex_defs)

section \<open>Failure of an acquisition\<close>

text \<open>
  C1. Let the guard hold nothing, let the first \<open>k - 1\<close> calls of \<^verbatim>\<open>acquire\<close>
  succeed and the \<open>k\<close>-th raise \<open>exc\<close>, and let the exceptions of \<^verbatim>\<open>release\<close> be instances
  of \<^verbatim>\<open>Exception\<close>. Then the entry raises \<open>exc\<close>; the calls made are \<^verbatim>\<open>acquire\<close> on the
  first \<open>k\<close> locks and then \<^verbatim>\<open>release\<close> on the first \<open>k - 1\<close> in reverse order, and
  no other; nothing is held afterwards; the failed acquisition is logged, and when
  releases failed their \<^verbatim>\<open>ReleaseError\<close>, with all the errors, is logged and not raised.
\<close>

theorem enter_rollback:
  assumes "release_raises_Exception ops"
    and "held_locks c = []"
    and "0 < k" and "k \<le> length (locks c)"
    and "acquire_all ops (take (k - 1) (locks c)) (world e) = Some wk"
    and "acquire ops (locks c ! (k - 1)) wk = (Some exc, wk')"
  shows "ctx_enter ops c e =
     (Some exc, c,
      e\<lparr>world := release_world ops (rev (take (k - 1) (locks c))) wk',
        calls := calls e @ map Acquire (take k (locks c))
                 @ map Release (rev (take (k - 1) (locks c))),
        logged := logged e @ LogError (locks c ! (k - 1))
                 # release_log (release_errors ops (rev (take (k - 1) (locks c))) wk')\<rparr>)"
proof -
  let ?pre = "take (k - 1) (locks c)" and ?l = "locks c ! (k - 1)"
  from assms(3,4) have split: "locks c = ?pre @ ?l # drop k (locks c)"
    using id_take_nth_drop [of "k - 1" "locks c"] by simp
  from assms(3,4) have tk: "take k (locks c) = ?pre @ [?l]"
    using take_Suc_conv_app_nth [of "k - 1" "locks c"] by simp
  from assms(2) have unheld: "c\<lparr>held_locks := []\<rparr> = c" by simp
  have "enter_loop ops (?pre @ ?l # drop k (locks c)) c e =
     (Some exc, c\<lparr>held_locks := []\<rparr>,
      e\<lparr>world := release_world ops (rev (held_locks c @ ?pre)) wk',
        calls := calls e @ map Acquire (?pre @ [?l]) @ map Release (rev (held_locks c @ ?pre)),
        logged := logged e @ LogError ?l #
                  release_log (release_errors ops (rev (held_locks c @ ?pre)) wk')\<rparr>)"
    by (rule enter_loop_fail [OF assms(1,5,6)])
  with split show ?thesis
    unfolding ctx_enter_def tk unheld using assms(2) by simp
qed

text \<open>The third acquisition fails and both releases of the rollback fail with an error.\<close>

theorem enter_rollback_witness:
  "release_raises_Exception ops_stuck
   \<and> acquire_all ops_stuck [lock_a, lock_b] 0 = Some 2
   \<and> acquire ops_stuck lock_c 2 = (Some (Error ''busy''), 3)
   \<and> ctx_enter ops_stuck (ctx_init rev [lock_c, lock_b, lock_a, lock_a2]) env0 =
       (Some (Error ''busy''),
        \<lparr>locks = [lock_a, lock_b, lock_c], held_locks = []\<rparr>,
        \<lparr>world = 5,
          calls = [Acquire lock_a, Acquire lock_b, Acquire lock_c,
                   Release lock_b, Release lock_a],
          logged = [LogError lock_c,
                    LogException (ReleaseError [Error ''stuck b'', Error ''stuck a''])]\<rparr>)"
proof -
  let ?c = "\<lparr>locks = [lock_a, lock_b, lock_c], held_locks = []\<rparr>"
  have h2: "held_locks ?c = []" by simp
  have h3: "0 < (3::nat)" by simp
  have h4: "3 \<le> length (locks ?c)" by simp
  have a6: "acquire ops_stuck lock_c 2 = (Some (Error ''busy''), 3)"
    by (simp add: ex_defs)
  have h5: "acquire_all ops_stuck (take (3 - 1) (locks ?c)) (world env0) = Some 2"
    using stuck_acquire_ab by (simp add: env0_def)
  have h6: "acquire ops_stuck (locks ?c ! (3 - 1)) 2 = (Some (Error ''busy''), 3)"
    using a6 by simp
  have "ctx_enter ops_stuck ?c env0 =
       (Some (Error ''busy''), ?c,
        \<lparr>world = 5,
          calls = [Acquire lock_a, Acquire lock_b, Acquire lock_c,
                   Release lock_b, Release lock_a],
          logged = [LogError lock_c,
                    LogException (ReleaseError [Error ''stuck b'', Error ''stuck a''])]\<rparr>)"
    using enter_rollback [OF stuck_contract h2 h3 h4 h5 h6]
    by (simp add: ex_defs release_log_def)
  with stuck_contract stuck_acquire_ab a6 show ?thesis
    by (simp only: init_cbaa simp_thms)
qed

text \<open>
  Without the restriction on \<^verbatim>\<open>release\<close> the property fails: when the rollback is
  interrupted, the caller gets the interrupt and not the acquisition failure, the first
  lock is never released and stays in the list of held locks.
\<close>

theorem enter_rollback_interrupted:
  "acquire_all ops_interrupt [lock_a, lock_b] 0 = Some 2
   \<and> acquire ops_interrupt lock_c 2 = (Some (Error ''busy''), 3)
   \<and> ctx_enter ops_interrupt (ctx_init rev [lock_c, lock_b, lock_a, lock_a2]) env0 =
       (Some (NonError ''KeyboardInterrupt''),
        \<lparr>locks = [lock_a, lock_b, lock_c], held_locks = [lock_a]\<rparr>,
        \<lparr>world = 4,
          calls = [Acquire lock_a, Acquire lock_b, Acquire lock_c, Release lock_b],
          logged = [LogError lock_c]\<rparr>)"
  unfolding init_cbaa by (simp add: model_defs ex_defs)

section \<open>Exit of the guard\<close>

text \<open>
  C2. Let every \<^verbatim>\<open>acquire\<close> succeed, let the body raise \<open>b\<close>, and let the
  exceptions of \<^verbatim>\<open>release\<close> be instances of \<^verbatim>\<open>Exception\<close>. Then the statement raises
  exactly \<open>b\<close>, whether the releases succeed or fail; when some fail, their
  \<^verbatim>\<open>ReleaseError\<close> is logged and nothing else is; every lock is released and none is held.
\<close>

theorem body_failure_observed:
  assumes "release_raises_Exception ops"
    and "acquire_all ops (locks (ctx_init iter L)) (world e) = Some w1"
    and "body w1 = (Some b, w2)"
  shows "with_context ops iter L body e =
     (Some b, ctx_init iter L,
      e\<lparr>world := release_world ops (rev (locks (ctx_init iter L))) w2,
        calls := calls e @ map Acquire (locks (ctx_init iter L))
                 @ map Release (rev (locks (ctx_init iter L))),
        logged := logged e
                 @ release_log (release_errors ops (rev (locks (ctx_init iter L))) w2)\<rparr>)"
  by (simp add: with_context_all [where body = body, OF assms])

text \<open>The body fails and both releases fail with an error.\<close>

theorem body_failure_observed_witness:
  "release_raises_Exception ops_stuck
   \<and> acquire_all ops_stuck [lock_a, lock_b] 0 = Some 2
   \<and> body_fails 2 = (Some (Error ''copy failed''), 2)
   \<and> with_context ops_stuck (\<lambda>s. s) [lock_b, lock_a, lock_a2] body_fails env0 =
       (Some (Error ''copy failed''),
        \<lparr>locks = [lock_a, lock_b], held_locks = []\<rparr>,
        \<lparr>world = 4,
          calls = [Acquire lock_a, Acquire lock_b, Release lock_b, Release lock_a],
          logged = [LogException (ReleaseError [Error ''stuck b'', Error ''stuck a''])]\<rparr>)"
proof -
  let ?L = "[lock_b, lock_a, lock_a2]"
  have h2: "acquire_all ops_stuck (locks (ctx_init (\<lambda>s. s) ?L)) (world env0) = Some 2"
    using stuck_acquire_ab by (simp add: init_baa env0_def)
  have h3: "body_fails 2 = (Some (Error ''copy failed''), 2)"
    by (simp add: body_fails_def)
  from body_failure_observed [where body = body_fails, OF stuck_contract h2 h3]
    stuck_contract stuck_acquire_ab h3
  show ?thesis
    unfolding init_baa by (simp add: ex_defs release_log_def)
qed

text \<open>
  Without the restriction the property fails: an interrupt raised by \<^verbatim>\<open>release\<close> leaves
  \<^verbatim>\<open>__exit__\<close> and replaces the failure of the body.
\<close>

theorem body_failure_replaced:
  "acquire_all ops_interrupt [lock_a, lock_b] 0 = Some 2
   \<and> body_fails 2 = (Some (Error ''copy failed''), 2)
   \<and> with_context ops_interrupt (\<lambda>s. s) [lock_b, lock_a, lock_a2] body_fails env0 =
       (Some (NonError ''KeyboardInterrupt''),
        \<lparr>locks = [lock_a, lock_b], held_locks = [lock_a]\<rparr>,
        \<lparr>world = 3,
          calls = [Acquire lock_a, Acquire lock_b, Release lock_b],
          logged = []\<rparr>)"
  unfolding with_context_def init_baa by (simp add: model_defs ex_defs)

text \<open>
  C3. Let every \<^verbatim>\<open>acquire\<close> succeed, let the body return, let the exceptions of
  \<^verbatim>\<open>release\<close> be instances of \<^verbatim>\<open>Exception\<close> and let one \<^verbatim>\<open>release\<close> at least fail. Then
  the statement raises one \<^verbatim>\<open>ReleaseError\<close> whose argument is the list of all the errors of
  the releases, in the order of the calls, which is the reverse of the acquisitions;
  nothing is logged and nothing is held.
\<close>

theorem release_failure_aggregated:
  assumes "release_raises_Exception ops"
    and "acquire_all ops (locks (ctx_init iter L)) (world e) = Some w1"
    and "body w1 = (None, w2)"
    and "release_errors ops (rev (locks (ctx_init iter L))) w2 \<noteq> []"
  shows "with_context ops iter L body e =
     (Some (ReleaseError (release_errors ops (rev (locks (ctx_init iter L))) w2)),
      ctx_init iter L,
      e\<lparr>world := release_world ops (rev (locks (ctx_init iter L))) w2,
        calls := calls e @ map Acquire (locks (ctx_init iter L))
                 @ map Release (rev (locks (ctx_init iter L)))\<rparr>)"
  using assms(4) by (simp add: with_context_all [where body = body, OF assms(1-3)])

text \<open>The body returns and both releases fail: both errors are in the aggregate.\<close>

theorem release_failure_aggregated_witness:
  "release_raises_Exception ops_stuck
   \<and> acquire_all ops_stuck [lock_a, lock_b] 0 = Some 2
   \<and> body_ok 2 = (None, 2)
   \<and> release_errors ops_stuck (rev [lock_a, lock_b]) 2 = [Error ''stuck b'', Error ''stuck a'']
   \<and> with_context ops_stuck (\<lambda>s. s) [lock_b, lock_a, lock_a2] body_ok env0 =
       (Some (ReleaseError [Error ''stuck b'', Error ''stuck a'']),
        \<lparr>locks = [lock_a, lock_b], held_locks = []\<rparr>,
        \<lparr>world = 4,
          calls = [Acquire lock_a, Acquire lock_b, Release lock_b, Release lock_a],
          logged = []\<rparr>)"
proof -
  let ?L = "[lock_b, lock_a, lock_a2]"
  have h2: "acquire_all ops_stuck (locks (ctx_init (\<lambda>s. s) ?L)) (world env0) = Some 2"
    using stuck_acquire_ab by (simp add: init_baa env0_def)
  have h3: "body_ok 2 = (None, 2)"
    by (simp add: body_ok_def)
  have errs: "release_errors ops_stuck (rev [lock_a, lock_b]) 2
                = [Error ''stuck b'', Error ''stuck a'']"
    by (simp add: ex_defs)
  have h4: "release_errors ops_stuck (rev (locks (ctx_init (\<lambda>s. s) ?L))) 2 \<noteq> []"
    using errs by (simp add: init_baa)
  from release_failure_aggregated [where body = body_ok, OF stuck_contract h2 h3 h4]
    stuck_contract stuck_acquire_ab h3 errs
  show ?thesis
    unfolding init_baa by (simp add: ex_defs)
qed

text \<open>
  Without the restriction the property fails: a \<^verbatim>\<open>release\<close> that raises an interrupt ends
  the exit with that interrupt, and no \<^verbatim>\<open>ReleaseError\<close> is raised.
\<close>

theorem release_interrupted_not_aggregated:
  "acquire_all ops_interrupt [lock_a, lock_b] 0 = Some 2
   \<and> body_ok 2 = (None, 2)
   \<and> release ops_interrupt lock_b 2 = (Some (NonError ''KeyboardInterrupt''), 3)
   \<and> fst (with_context ops_interrupt (\<lambda>s. s) [lock_b, lock_a, lock_a2] body_ok env0) =
       Some (NonError ''KeyboardInterrupt'')"
  unfolding with_context_def init_baa by (simp add: model_defs ex_defs)

text \<open>
  C5. Let every \<^verbatim>\<open>acquire\<close> succeed and let the exceptions of \<^verbatim>\<open>release\<close> be
  instances of \<^verbatim>\<open>Exception\<close>. Then, whatever the body does, the calls of the statement are
  \<^verbatim>\<open>acquire\<close> on the working list in order, then \<^verbatim>\<open>release\<close> on the same locks in the
  exact reverse order, whether the releases succeed or fail.
\<close>

theorem release_reverses_acquire:
  assumes "release_raises_Exception ops"
    and "acquire_all ops (locks (ctx_init iter L)) (world e) = Some w1"
  shows "calls (snd (snd (with_context ops iter L body e))) =
       calls e @ map Acquire (locks (ctx_init iter L))
         @ map Release (rev (locks (ctx_init iter L)))
     \<and> acquire_calls (drop (length (calls e)) (calls (snd (snd (with_context ops iter L body e)))))
         = locks (ctx_init iter L)
     \<and> release_calls (drop (length (calls e)) (calls (snd (snd (with_context ops iter L body e)))))
         = rev (locks (ctx_init iter L))"
proof -
  obtain exc w2 where "body w1 = (exc, w2)" by (cases "body w1")
  from with_context_all [where body = body, OF assms this] show ?thesis
    by (simp add: acquire_calls_append release_calls_append calls_of_map)
qed

text \<open>Two locks acquired, then released in reverse, both releases failing.\<close>

theorem release_reverses_acquire_witness:
  "release_raises_Exception ops_stuck
   \<and> acquire_all ops_stuck [lock_a, lock_b] 0 = Some 2
   \<and> calls (snd (snd (with_context ops_stuck (\<lambda>s. s) [lock_b, lock_a, lock_a2] body_ok env0)))
       = [Acquire lock_a, Acquire lock_b, Release lock_b, Release lock_a]"
proof -
  let ?L = "[lock_b, lock_a, lock_a2]"
  have h2: "acquire_all ops_stuck (locks (ctx_init (\<lambda>s. s) ?L)) (world env0) = Some 2"
    using stuck_acquire_ab by (simp add: init_baa env0_def)
  from release_reverses_acquire [where body = body_ok, OF stuck_contract h2]
    stuck_contract stuck_acquire_ab
  show ?thesis
    unfolding init_baa by (simp add: env0_def)
qed

text \<open>
  Without the restriction the property fails: after an interrupt in the first \<^verbatim>\<open>release\<close>
  the other lock is not released, and the releases are not the reverse of the acquisitions.
\<close>

theorem release_interrupted_not_reverse:
  "acquire_all ops_interrupt [lock_a, lock_b] 0 = Some 2
   \<and> acquire_calls
        (calls (snd (snd (with_context ops_interrupt (\<lambda>s. s) [lock_b, lock_a, lock_a2] body_ok env0))))
       = [lock_a, lock_b]
   \<and> release_calls
        (calls (snd (snd (with_context ops_interrupt (\<lambda>s. s) [lock_b, lock_a, lock_a2] body_ok env0))))
       = [lock_b]"
  unfolding with_context_def init_baa by (simp add: model_defs ex_defs)

end
